theory Spec2Isabelle
  imports Main "HOL-Library.Sublist"
begin

section \<open>The in-memory item store of elysiaApp.ts\<close>

text \<open>
  The program keeps one store object \<^verbatim>\<open>{ items, nextId }\<close>, decorated onto the Elysia
  application, and six route handlers that read and mutate it. Each handler is embedded
  as a function from the program state (and the decoded request parameters) to the value
  the handler returns and the state it leaves.

  Numbers. \<^verbatim>\<open>id\<close> and \<^verbatim>\<open>nextId\<close> are JavaScript numbers, that is IEEE doubles. The ids and
  the counter are integers, modelled as \<^typ>\<open>int\<close>; comparison with \<^verbatim>\<open>===\<close> is equality. The
  only arithmetic of the program is \<^verbatim>\<open>store.nextId++\<close>, whose rounding is written out in
  \<open>js_incr\<close> below: the increment is exact up to \<open>2 ^ 53\<close> and is absorbed there.

  Objects. \<^verbatim>\<open>store.items\<close> holds a reference to an array object: \<^verbatim>\<open>push\<close> and an indexed
  assignment mutate the array in place, \<^verbatim>\<open>filter\<close> builds a new array, and
  \<^verbatim>\<open>return store.items\<close> hands out the reference. The arrays therefore live in an explicit
  heap. No handler ever assigns to a field of an item object (an update stores a new
  object literal in the array slot), so items are plain values.

  The module-level variables \<^verbatim>\<open>items\<close> and \<^verbatim>\<open>nextId\<close> declared before the application
  are read by no handler and have no part in the model.
\<close>

subsection \<open>Data\<close>

record item =
  id' :: int
  name :: string

type_synonym ref = nat

text \<open>
  The state: the heap of array objects (\<open>arrays\<close>, with \<open>fresh\<close> the next address that
  has not been allocated), and the two fields of the store object, \<open>items\<close> (a reference)
  and \<open>nextId\<close>.
\<close>

record state =
  arrays :: "ref \<Rightarrow> item list"
  fresh :: ref
  items :: ref
  nextId :: int

text \<open>\<^verbatim>\<open>store: { items: [], nextId: 1 }\<close>: one empty array, at address 0.\<close>

definition init :: state where
  "init = \<lparr>arrays = (\<lambda>_. []), fresh = 1, items = 0, nextId = 1\<rparr>"

text \<open>The array \<^verbatim>\<open>store.items\<close> refers to.\<close>

definition cur_items :: "state \<Rightarrow> item list" where
  "cur_items s = arrays s (items s)"

text \<open>
  What a handler returns: a string, an item object, the reference to an array of items,
  or an explicit \<^verbatim>\<open>new Response(body, { status })\<close>.
\<close>

datatype reply =
    Text string
  | Item item
  | Items ref
  | Response string nat

subsection \<open>Array methods\<close>

text \<open>
  \<^verbatim>\<open>Array.prototype.findIndex\<close>: the index of the first element that satisfies the
  predicate, \<open>-1\<close> when there is none. \<^verbatim>\<open>Array.prototype.find\<close> is \<^const>\<open>List.find\<close>
  (with \<open>None\<close> for \<^verbatim>\<open>undefined\<close>) and \<^verbatim>\<open>Array.prototype.filter\<close> is \<^const>\<open>filter\<close>.
\<close>

fun findIndex_from :: "('a \<Rightarrow> bool) \<Rightarrow> 'a list \<Rightarrow> int \<Rightarrow> int" where
  "findIndex_from P [] k = -1"
| "findIndex_from P (x # xs) k = (if P x then k else findIndex_from P xs (k + 1))"

definition findIndex :: "('a \<Rightarrow> bool) \<Rightarrow> 'a list \<Rightarrow> int" where
  "findIndex P xs = findIndex_from P xs 0"

subsection \<open>The increment of a number\<close>

text \<open>
  \<open>n + 1\<close> on a double that holds the integer \<open>n\<close>, rounded to nearest, ties to even. From
  \<open>- 2 ^ 53\<close> up to \<open>2 ^ 53 - 1\<close> the sum is a double and the result is exact. Beyond, the
  doubles are 2 apart up to \<open>2 ^ 54\<close> in absolute value, so \<open>n + 1\<close> lies half-way between
  \<open>n\<close> and \<open>n + 2\<close> and the one with the even significand (\<open>\<bar>n\<bar> div 2\<close> for \<open>n\<close>) is
  taken; further out they are at least 4 apart and the result is \<open>n\<close>. In particular
  \<open>2 ^ 53 + 1\<close> is \<open>2 ^ 53\<close> again: a counter that has reached \<open>2 ^ 53\<close> stays there.
\<close>

definition js_limit :: int where
  "js_limit = 2 ^ 53"

definition js_incr :: "int \<Rightarrow> int" where
  "js_incr n =
     (if - js_limit \<le> n \<and> n < js_limit then n + 1
      else if \<bar>n\<bar> < 2 * js_limit \<and> odd (\<bar>n\<bar> div 2) then n + 2
      else n)"

subsection \<open>The handlers\<close>

text \<open>\<^verbatim>\<open>.get("/", () => "ElysiaJS CRUD In-Memory Example")\<close>\<close>

definition get_root :: "state \<Rightarrow> reply \<times> state" where
  "get_root s = (Text ''ElysiaJS CRUD In-Memory Example'', s)"

text \<open>\<^verbatim>\<open>.get("/items", ({ store }) => { return store.items; })\<close>\<close>

definition get_items :: "state \<Rightarrow> reply \<times> state" where
  "get_items s = (Items (items s), s)"

text \<open>
  \<^verbatim>\<open>
  const item = store.items.find((i) => i.id === id);
  if (!item) { return new Response("Item not found", { status: 404 }); }
  return item;
  \<close>
\<close>

definition get_item :: "state \<Rightarrow> int \<Rightarrow> reply \<times> state" where
  "get_item s k =
     (case find (\<lambda>i. id' i = k) (cur_items s) of
        None \<Rightarrow> (Response ''Item not found'' 404, s)
      | Some it \<Rightarrow> (Item it, s))"

text \<open>
  \<^verbatim>\<open>
  const newItem = { id: store.nextId++, name: body.name };
  store.items.push(newItem);
  return newItem;
  \<close>
\<close>

definition post_item :: "state \<Rightarrow> string \<Rightarrow> reply \<times> state" where
  "post_item s body_name =
     (let newItem = \<lparr>id' = nextId s, name = body_name\<rparr>;
          s1 = s\<lparr>nextId := js_incr (nextId s)\<rparr>;
          s2 = s1\<lparr>arrays := (arrays s1)(items s1 := arrays s1 (items s1) @ [newItem])\<rparr>
      in (Item newItem, s2))"

text \<open>
  \<^verbatim>\<open>
  const itemIndex = store.items.findIndex((i) => i.id === id);
  if (itemIndex === -1) { return new Response("Item not found", { status: 404 }); }
  store.items[itemIndex] = { id, name: body.name };
  return store.items[itemIndex];
  \<close>
\<close>

definition put_item :: "state \<Rightarrow> int \<Rightarrow> string \<Rightarrow> reply \<times> state" where
  "put_item s k body_name =
     (let itemIndex = findIndex (\<lambda>i. id' i = k) (cur_items s) in
      if itemIndex = -1 then (Response ''Item not found'' 404, s)
      else
        let s1 = s\<lparr>arrays := (arrays s)
                   (items s := (arrays s (items s))[nat itemIndex := \<lparr>id' = k, name = body_name\<rparr>])\<rparr>
        in (Item (arrays s1 (items s1) ! nat itemIndex), s1))"

text \<open>
  \<^verbatim>\<open>
  const initialLength = store.items.length;
  store.items = store.items.filter((i) => i.id !== id);
  if (store.items.length === initialLength) {
    return new Response("Item not found", { status: 404 });
  }
  return new Response("Item deleted successfully", { status: 200 });
  \<close>
  \<^verbatim>\<open>filter\<close> allocates its result, and the assignment makes \<^verbatim>\<open>store.items\<close> refer to it,
  whether or not an element was dropped.
\<close>

definition delete_item :: "state \<Rightarrow> int \<Rightarrow> reply \<times> state" where
  "delete_item s k =
     (let initialLength = length (arrays s (items s));
          a = fresh s;
          s1 = s\<lparr>arrays := (arrays s)(a := filter (\<lambda>i. id' i \<noteq> k) (arrays s (items s))),
                 fresh := a + 1,
                 items := a\<rparr>
      in if length (arrays s1 (items s1)) = initialLength
         then (Response ''Item not found'' 404, s1)
         else (Response ''Item deleted successfully'' 200, s1))"

subsection \<open>Requests and runs\<close>

text \<open>
  The routes of the application, with the parameters the schemas decode: a numeric
  \<^verbatim>\<open>:id\<close> and a body \<^verbatim>\<open>{ name }\<close>. (A numeric \<^verbatim>\<open>:id\<close> that is not an integer is equal to
  no id the store ever holds, and is handled as any other absent id.)
\<close>

datatype request =
    GetRoot
  | GetItems
  | GetItem int
  | PostItem string
  | PutItem int string
  | DeleteItem int

fun handle :: "request \<Rightarrow> state \<Rightarrow> reply \<times> state" where
  "handle GetRoot s = get_root s"
| "handle GetItems s = get_items s"
| "handle (GetItem k) s = get_item s k"
| "handle (PostItem n) s = post_item s n"
| "handle (PutItem k n) s = put_item s k n"
| "handle (DeleteItem k) s = delete_item s k"

text \<open>The state after a sequence of requests, handled one after the other.\<close>

fun run :: "state \<Rightarrow> request list \<Rightarrow> state" where
  "run s [] = s"
| "run s (r # rs) = run (snd (handle r s)) rs"

text \<open>The ids that the \<^verbatim>\<open>POST /items\<close> requests of a run return, in the order of the calls.\<close>

fun issued :: "state \<Rightarrow> request list \<Rightarrow> int list" where
  "issued s [] = []"
| "issued s (r # rs) =
     (case (r, fst (handle r s)) of
        (PostItem n, Item it) \<Rightarrow> id' it # issued (snd (handle r s)) rs
      | _ \<Rightarrow> issued (snd (handle r s)) rs)"

text \<open>The requests whose handlers assign nothing.\<close>

fun read_only :: "request \<Rightarrow> bool" where
  "read_only GetRoot = True"
| "read_only GetItems = True"
| "read_only (GetItem k) = True"
| "read_only r = False"

subsection \<open>What the client receives\<close>

text \<open>
  The framework turns a handler's return value into the HTTP response: an explicit
  \<^verbatim>\<open>Response\<close> is sent with its own status and body, any other value with status 200 (the
  "OK" of the interface table), an array reference as the array's elements at the moment
  the handler returns.
\<close>

datatype body = BText string | BItem item | BItems "item list"

fun respond :: "state \<Rightarrow> reply \<Rightarrow> nat \<times> body" where
  "respond s (Text t) = (200, BText t)"
| "respond s (Item it) = (200, BItem it)"
| "respond s (Items a) = (200, BItems (arrays s a))"
| "respond s (Response t c) = (c, BText t)"

text \<open>The response to one request: the handler's reply, sent from the state it leaves.\<close>

definition serve :: "request \<Rightarrow> state \<Rightarrow> nat \<times> body" where
  "serve r s = respond (snd (handle r s)) (fst (handle r s))"

subsection \<open>Notions used to state the properties\<close>

text \<open>The index of the first item of a sequence whose id is \<open>k\<close>.\<close>

definition first_at :: "int \<Rightarrow> item list \<Rightarrow> nat" where
  "first_at k xs = length (takeWhile (\<lambda>i. id' i \<noteq> k) xs)"

text \<open>
  The invariant of the data model: the ids in the store are pairwise distinct and all
  below \<open>nextId\<close>.
\<close>

definition store_inv :: "state \<Rightarrow> bool" where
  "store_inv s \<longleftrightarrow>
     distinct (map id' (cur_items s)) \<and> (\<forall>i\<in>set (cur_items s). id' i < nextId s)"

text \<open>The array of the store is an allocated one.\<close>

definition heap_ok :: "state \<Rightarrow> bool" where
  "heap_ok s \<longleftrightarrow> items s < fresh s"

fun is_post :: "request \<Rightarrow> bool" where
  "is_post (PostItem n) = True"
| "is_post r = False"

fun is_delete :: "request \<Rightarrow> bool" where
  "is_delete (DeleteItem k) = True"
| "is_delete r = False"

text \<open>An array that is allocated and is not the one the store refers to.\<close>

definition detached :: "ref \<Rightarrow> state \<Rightarrow> bool" where
  "detached a s \<longleftrightarrow> a < fresh s \<and> a \<noteq> items s"

text \<open>\<open>2 ^ 53 - 1\<close> requests \<^verbatim>\<open>POST /items\<close>: the run that takes the counter from 1 to \<open>2 ^ 53\<close>.\<close>

definition fill :: "request list" where
  "fill = replicate (nat (js_limit - 1)) (PostItem [])"

section \<open>Auxiliary facts\<close>

subsection \<open>Searching an array\<close>

lemma findIndex_from_takeWhile:
  "findIndex_from P xs k =
     (if \<exists>x\<in>set xs. P x then k + int (length (takeWhile (\<lambda>x. \<not> P x) xs)) else -1)"
  by (induction xs arbitrary: k) auto

lemma findIndex_takeWhile:
  "findIndex P xs =
     (if \<exists>x\<in>set xs. P x then int (length (takeWhile (\<lambda>x. \<not> P x) xs)) else -1)"
  by (simp add: findIndex_def findIndex_from_takeWhile)

lemma first_match_less:
  "\<exists>x\<in>set xs. P x \<Longrightarrow> length (takeWhile (\<lambda>x. \<not> P x) xs) < length xs"
  by (induction xs) auto

lemma first_match_holds:
  "\<exists>x\<in>set xs. P x \<Longrightarrow> P (xs ! length (takeWhile (\<lambda>x. \<not> P x) xs))"
  by (induction xs) auto

lemma first_match_least:
  "m < length (takeWhile (\<lambda>x. \<not> P x) xs) \<Longrightarrow> \<not> P (xs ! m)"
  by (induction xs arbitrary: m) (auto simp: nth_Cons split: nat.splits if_splits)

lemma find_first_match:
  "find P xs =
     (if \<exists>x\<in>set xs. P x then Some (xs ! length (takeWhile (\<lambda>x. \<not> P x) xs)) else None)"
  by (induction xs) auto

lemma first_at_less: "k \<in> id' ` set xs \<Longrightarrow> first_at k xs < length xs"
  unfolding first_at_def by (rule first_match_less) auto

lemma first_at_id: "k \<in> id' ` set xs \<Longrightarrow> id' (xs ! first_at k xs) = k"
  unfolding first_at_def using first_match_holds [of xs "\<lambda>i. id' i = k"] by auto

lemma first_at_least: "m < first_at k xs \<Longrightarrow> id' (xs ! m) \<noteq> k"
  unfolding first_at_def using first_match_least [of m "\<lambda>i. id' i = k" xs] by simp

lemma filter_length_same: "length (filter P xs) = length xs \<longleftrightarrow> (\<forall>x\<in>set xs. P x)"
  by (metis filter_True length_filter_less linorder_not_less order_refl filter_id_conv)

subsection \<open>The effect of each handler on the store\<close>

lemma get_root_state [simp]: "snd (get_root s) = s"
  by (simp add: get_root_def)

lemma get_items_state [simp]: "snd (get_items s) = s"
  by (simp add: get_items_def)

lemma get_item_state [simp]: "snd (get_item s k) = s"
  by (simp add: get_item_def split: option.splits)

lemma get_item_reply:
  "fst (get_item s k) =
     (if k \<in> id' ` set (cur_items s) then Item (cur_items s ! first_at k (cur_items s))
      else Response ''Item not found'' 404)"
  by (auto simp: get_item_def find_first_match first_at_def)

lemma post_item_cur_items [simp]:
  "cur_items (snd (post_item s n)) = cur_items s @ [\<lparr>id' = nextId s, name = n\<rparr>]"
  by (simp add: post_item_def cur_items_def Let_def)

lemma post_item_nextId [simp]: "nextId (snd (post_item s n)) = js_incr (nextId s)"
  by (simp add: post_item_def Let_def)

lemma post_item_reply [simp]: "fst (post_item s n) = Item \<lparr>id' = nextId s, name = n\<rparr>"
  by (simp add: post_item_def Let_def)

lemma put_item_absent:
  "k \<notin> id' ` set (cur_items s) \<Longrightarrow> put_item s k n = (Response ''Item not found'' 404, s)"
  by (auto simp: put_item_def findIndex_takeWhile Let_def)

lemma put_item_present:
  assumes "k \<in> id' ` set (cur_items s)"
  shows "put_item s k n =
    (Item \<lparr>id' = k, name = n\<rparr>,
     s\<lparr>arrays := (arrays s)
         (items s := (cur_items s)[first_at k (cur_items s) := \<lparr>id' = k, name = n\<rparr>])\<rparr>)"
proof -
  from assms have ex: "\<exists>x\<in>set (cur_items s). id' x = k" by auto
  then have idx: "findIndex (\<lambda>i. id' i = k) (cur_items s) = int (first_at k (cur_items s))"
    by (simp add: findIndex_takeWhile first_at_def)
  from assms have "first_at k (cur_items s) < length (cur_items s)"
    by (rule first_at_less)
  with idx show ?thesis
    by (simp add: put_item_def Let_def cur_items_def)
qed

lemma put_item_nextId [simp]: "nextId (snd (put_item s k n)) = nextId s"
  by (cases "k \<in> id' ` set (cur_items s)") (simp_all add: put_item_absent put_item_present)

lemma put_item_ids: "map id' (cur_items (snd (put_item s k n))) = map id' (cur_items s)"
proof (cases "k \<in> id' ` set (cur_items s)")
  case True
  then have "id' (cur_items s ! first_at k (cur_items s)) = k"
    by (rule first_at_id)
  then have "(map id' (cur_items s))[first_at k (cur_items s) := k] = map id' (cur_items s)"
    by (metis list_update_id map_update)
  with True show ?thesis
    by (simp add: put_item_present cur_items_def map_update)
next
  case False
  then show ?thesis by (simp add: put_item_absent)
qed

lemma delete_item_cur_items [simp]:
  "cur_items (snd (delete_item s k)) = filter (\<lambda>i. id' i \<noteq> k) (cur_items s)"
  by (simp add: delete_item_def cur_items_def Let_def)

lemma delete_item_nextId [simp]: "nextId (snd (delete_item s k)) = nextId s"
  by (simp add: delete_item_def Let_def)

lemma delete_item_reply:
  "fst (delete_item s k) =
     (if k \<in> id' ` set (cur_items s) then Response ''Item deleted successfully'' 200
      else Response ''Item not found'' 404)"
  by (auto simp: delete_item_def cur_items_def Let_def filter_length_same)

subsection \<open>The increment\<close>

lemma js_limit_gt_1: "1 < js_limit"
  by (simp add: js_limit_def)

lemma js_incr_exact: "- js_limit \<le> n \<Longrightarrow> n < js_limit \<Longrightarrow> js_incr n = n + 1"
  by (simp add: js_incr_def)

lemma js_incr_absorbed: "js_incr js_limit = js_limit"
  by (simp add: js_incr_def js_limit_def)

lemma js_incr_ge: "n \<le> js_incr n"
  by (simp add: js_incr_def)

lemma js_incr_le: "- js_limit \<le> n \<Longrightarrow> n \<le> js_limit \<Longrightarrow> js_incr n \<le> js_limit"
  by (cases "n = js_limit") (simp_all add: js_incr_absorbed js_incr_exact)

subsection \<open>Invariants of a run\<close>

lemma store_inv_init: "store_inv init"
  by (simp add: store_inv_def init_def cur_items_def)

lemma store_inv_ids:
  "store_inv s \<longleftrightarrow>
     distinct (map id' (cur_items s)) \<and> (\<forall>k\<in>set (map id' (cur_items s)). k < nextId s)"
  by (auto simp: store_inv_def)

lemma handle_nextId:
  "nextId (snd (handle r s)) = (if is_post r then js_incr (nextId s) else nextId s)"
  by (cases r) simp_all

lemma nextId_handle: "nextId s \<le> nextId (snd (handle r s))"
  by (simp add: handle_nextId js_incr_ge)

lemma nextId_run: "nextId s \<le> nextId (run s rs)"
proof (induction rs arbitrary: s)
  case Nil
  show ?case by simp
next
  case (Cons r rs)
  have "nextId s \<le> nextId (snd (handle r s))" by (rule nextId_handle)
  also have "\<dots> \<le> nextId (run (snd (handle r s)) rs)" by (rule Cons.IH)
  finally show ?case by simp
qed

lemma store_inv_handle:
  assumes "store_inv s" and "is_post r \<longrightarrow> - js_limit \<le> nextId s \<and> nextId s < js_limit"
  shows "store_inv (snd (handle r s))"
proof (cases r)
  case (PostItem n)
  with assms(2) have "js_incr (nextId s) = nextId s + 1" by (simp add: js_incr_exact)
  with assms(1) show ?thesis using PostItem by (auto simp: store_inv_def)
next
  case (PutItem k n)
  with assms(1) show ?thesis
    unfolding store_inv_ids by (simp add: put_item_ids)
next
  case (DeleteItem k)
  with assms(1) show ?thesis by (auto simp: store_inv_def distinct_map_filter)
qed (use assms(1) in simp_all)

text \<open>While the counter stays in the exact range, it counts the POST requests.\<close>

lemma nextId_run_exact:
  "- js_limit \<le> nextId s \<Longrightarrow> nextId s + int (length (filter is_post rs)) \<le> js_limit
   \<Longrightarrow> nextId (run s rs) = nextId s + int (length (filter is_post rs))"
proof (induction rs arbitrary: s)
  case Nil
  show ?case by simp
next
  case (Cons r rs)
  show ?case
  proof (cases "is_post r")
    case True
    with Cons.prems have step: "nextId (snd (handle r s)) = nextId s + 1"
      by (simp add: handle_nextId js_incr_exact)
    with Cons.prems True
    have "nextId (run (snd (handle r s)) rs)
            = nextId (snd (handle r s)) + int (length (filter is_post rs))"
      by (intro Cons.IH) simp_all
    with step True show ?thesis by simp
  next
    case False
    then have step: "nextId (snd (handle r s)) = nextId s" by (simp add: handle_nextId)
    with Cons.prems False
    have "nextId (run (snd (handle r s)) rs)
            = nextId (snd (handle r s)) + int (length (filter is_post rs))"
      by (intro Cons.IH) simp_all
    with step False show ?thesis by simp
  qed
qed

lemma store_inv_run:
  "store_inv s \<Longrightarrow> - js_limit \<le> nextId s
   \<Longrightarrow> nextId s + int (length (filter is_post rs)) \<le> js_limit
   \<Longrightarrow> store_inv (run s rs)"
proof (induction rs arbitrary: s)
  case Nil
  then show ?case by simp
next
  case (Cons r rs)
  have inv: "store_inv (snd (handle r s))"
    using Cons.prems by (intro store_inv_handle) auto
  have lo: "- js_limit \<le> nextId (snd (handle r s))"
    using Cons.prems(2) nextId_handle [of s r] by linarith
  have hi: "nextId (snd (handle r s)) + int (length (filter is_post rs)) \<le> js_limit"
    using Cons.prems by (cases "is_post r") (simp_all add: handle_nextId js_incr_exact)
  from Cons.IH [OF inv lo hi] show ?case by simp
qed

text \<open>
  The values the counter of the program takes: from 1 to \<open>2 ^ 53\<close>, where the increment is
  exact below \<open>2 ^ 53\<close> (\<open>js_incr_exact\<close>) and absorbed at \<open>2 ^ 53\<close> (\<open>js_incr_absorbed\<close>).
\<close>

lemma nextId_reachable_range: "1 \<le> nextId (run init rs) \<and> nextId (run init rs) \<le> js_limit"
proof -
  have "1 \<le> nextId s \<and> nextId s \<le> js_limit
        \<Longrightarrow> 1 \<le> nextId (run s rs) \<and> nextId (run s rs) \<le> js_limit" for s
  proof (induction rs arbitrary: s)
    case Nil
    then show ?case by simp
  next
    case (Cons r rs)
    have "1 \<le> nextId (snd (handle r s)) \<and> nextId (snd (handle r s)) \<le> js_limit"
      using Cons.prems nextId_handle [of s r] js_incr_le [of "nextId s"] js_limit_gt_1
      by (auto simp: handle_nextId)
    from Cons.IH [OF this] show ?case by simp
  qed
  moreover have "1 \<le> nextId init \<and> nextId init \<le> js_limit"
    using js_limit_gt_1 by (simp add: init_def)
  ultimately show ?thesis by blast
qed

lemma heap_ok_handle: "heap_ok s \<Longrightarrow> heap_ok (snd (handle r s))"
  by (cases r) (auto simp: heap_ok_def post_item_def put_item_def delete_item_def Let_def)

lemma heap_ok_run: "heap_ok s \<Longrightarrow> heap_ok (run s rs)"
  by (induction rs arbitrary: s) (simp_all add: heap_ok_handle)

subsection \<open>The ids a run hands out\<close>

lemma issued_Cons:
  "issued s (r # rs) =
     (case r of PostItem n \<Rightarrow> nextId s # issued (snd (handle r s)) rs
      | _ \<Rightarrow> issued (snd (handle r s)) rs)"
  by (cases r)
     (simp_all add: get_root_def get_items_def get_item_def put_item_def delete_item_def
        Let_def split: option.splits)

lemma issued_length: "length (issued s rs) = length (filter is_post rs)"
proof (induction rs arbitrary: s)
  case Nil
  show ?case by simp
next
  case (Cons r rs)
  then show ?case by (cases r) (simp_all add: issued_Cons)
qed

lemma issued_ge: "k \<in> set (issued s rs) \<Longrightarrow> nextId s \<le> k"
proof (induction rs arbitrary: s)
  case Nil
  then show ?case by simp
next
  case (Cons r rs)
  show ?case
  proof (cases "k \<in> set (issued (snd (handle r s)) rs)")
    case True
    from Cons.IH [OF True] nextId_handle [of s r] show ?thesis by simp
  next
    case False
    with Cons.prems show ?thesis
      by (auto simp: issued_Cons split: request.splits)
  qed
qed

lemma issued_less:
  "- js_limit \<le> nextId s \<Longrightarrow> nextId s + int (length (filter is_post rs)) \<le> js_limit
   \<Longrightarrow> k \<in> set (issued s rs) \<Longrightarrow> k < nextId (run s rs)"
proof (induction rs arbitrary: s)
  case Nil
  then show ?case by simp
next
  case (Cons r rs)
  let ?s' = "snd (handle r s)"
  have lo: "- js_limit \<le> nextId ?s'"
    using Cons.prems(1) nextId_handle [of s r] by linarith
  have hi: "nextId ?s' + int (length (filter is_post rs)) \<le> js_limit"
    using Cons.prems by (cases "is_post r") (simp_all add: handle_nextId js_incr_exact)
  show ?case
  proof (cases "k \<in> set (issued ?s' rs)")
    case True
    from Cons.IH [OF lo hi True] show ?thesis by simp
  next
    case False
    with Cons.prems obtain n where r: "r = PostItem n" and k: "k = nextId s"
      by (auto simp: issued_Cons split: request.splits)
    from r Cons.prems have "nextId ?s' = nextId s + 1"
      by (simp add: js_incr_exact)
    then have "nextId s < nextId ?s'" by simp
    also have "\<dots> \<le> nextId (run ?s' rs)" by (rule nextId_run)
    finally show ?thesis using k by simp
  qed
qed

lemma issued_increasing:
  "- js_limit \<le> nextId s \<Longrightarrow> nextId s + int (length (filter is_post rs)) \<le> js_limit + 1
   \<Longrightarrow> sorted_wrt (<) (issued s rs)"
proof (induction rs arbitrary: s)
  case Nil
  show ?case by simp
next
  case (Cons r rs)
  let ?s' = "snd (handle r s)"
  have lo: "- js_limit \<le> nextId ?s'"
    using Cons.prems(1) nextId_handle [of s r] by linarith
  show ?case
  proof (cases "is_post r")
    case True
    then obtain n where r: "r = PostItem n" by (cases r) simp_all
    have above: "nextId s < k" if k: "k \<in> set (issued ?s' rs)" for k
    proof -
      from k have "issued ?s' rs \<noteq> []" by auto
      then have "filter is_post rs \<noteq> []"
        by (metis issued_length length_0_conv)
      then have "1 \<le> int (length (filter is_post rs))"
        by (cases "filter is_post rs") simp_all
      moreover have "int (length (filter is_post (r # rs))) = 1 + int (length (filter is_post rs))"
        using True by simp
      ultimately have "nextId s < js_limit" using Cons.prems(2) by linarith
      with Cons.prems(1) r have "nextId ?s' = nextId s + 1" by (simp add: js_incr_exact)
      with issued_ge [OF k] show ?thesis by simp
    qed
    have "nextId ?s' \<le> nextId s + 1"
    proof (cases "nextId s < js_limit")
      case True
      with Cons.prems(1) r show ?thesis by (simp add: js_incr_exact)
    next
      case False
      with Cons.prems \<open>is_post r\<close> have "nextId s = js_limit" by simp
      with r show ?thesis by (simp add: js_incr_absorbed)
    qed
    with Cons.prems True
    have hi: "nextId ?s' + int (length (filter is_post rs)) \<le> js_limit + 1" by simp
    from Cons.IH [OF lo hi] above r show ?thesis by (auto simp: issued_Cons)
  next
    case False
    with Cons.prems
    have hi: "nextId ?s' + int (length (filter is_post rs)) \<le> js_limit + 1"
      by (simp add: handle_nextId)
    from Cons.IH [OF lo hi] False show ?thesis
      by (cases r) (simp_all add: issued_Cons)
  qed
qed


subsection \<open>Runs in two parts, and the run that exhausts the exact range\<close>

lemma run_append: "run s (rs @ qs) = run (run s rs) qs"
  by (induction rs arbitrary: s) simp_all

lemma issued_append: "issued s (rs @ qs) = issued s rs @ issued (run s rs) qs"
proof (induction rs arbitrary: s)
  case Nil
  show ?case by simp
next
  case (Cons r rs)
  then show ?case by (cases r) (simp_all add: issued_Cons)
qed

lemma posts_fill: "int (length (filter is_post fill)) = js_limit - 1"
proof -
  have "filter is_post (replicate m (PostItem x)) = replicate m (PostItem x)" for m x
    by (induction m) simp_all
  then show ?thesis
    using js_limit_gt_1 by (simp add: fill_def)
qed

lemma nextId_fill: "nextId (run init fill) = js_limit"
proof -
  have "nextId (run init fill) = nextId init + int (length (filter is_post fill))"
    using js_limit_gt_1 by (intro nextId_run_exact) (simp_all add: posts_fill init_def)
  then show ?thesis by (simp add: posts_fill init_def)
qed

lemma nextId_fill_post: "nextId (run init (fill @ [PostItem n])) = js_limit"
  by (simp add: run_append nextId_fill js_incr_absorbed)

lemma issued_fill_post: "issued init (fill @ [PostItem n]) = issued init fill @ [js_limit]"
  by (simp add: issued_append issued_Cons nextId_fill)

lemma issued_fill_post_post:
  "issued init (fill @ [PostItem n, PostItem m]) = issued init fill @ [js_limit, js_limit]"
  by (simp add: issued_append issued_Cons nextId_fill js_incr_absorbed)

lemma cur_items_fill_post:
  "cur_items (run init (fill @ [PostItem n]))
     = cur_items (run init fill) @ [\<lparr>id' = js_limit, name = n\<rparr>]"
  by (simp add: run_append nextId_fill)

lemma cur_items_fill_post_post:
  "cur_items (run init (fill @ [PostItem n, PostItem m]))
     = cur_items (run init fill) @ [\<lparr>id' = js_limit, name = n\<rparr>, \<lparr>id' = js_limit, name = m\<rparr>]"
  by (simp add: run_append nextId_fill js_incr_absorbed)

subsection \<open>Arrays and references\<close>

lemma heap_ok_init: "heap_ok init"
  by (simp add: heap_ok_def init_def)

lemma heap_ok_reachable: "heap_ok (run init rs)"
  using heap_ok_init by (rule heap_ok_run)

text \<open>Without a DELETE the store keeps its array, and the array holds the store's items.\<close>

lemma handle_items_no_delete: "\<not> is_delete r \<Longrightarrow> items (snd (handle r s)) = items s"
  by (cases r) (simp_all add: post_item_def put_item_def Let_def)

lemma run_items_no_delete: "\<forall>r\<in>set rs. \<not> is_delete r \<Longrightarrow> items (run s rs) = items s"
  by (induction rs arbitrary: s) (simp_all add: handle_items_no_delete)

text \<open>An array the store no longer refers to is never written again.\<close>

lemma detached_handle:
  "detached a s \<Longrightarrow> detached a (snd (handle r s)) \<and> arrays (snd (handle r s)) a = arrays s a"
  by (cases r) (auto simp: detached_def post_item_def put_item_def delete_item_def Let_def)

lemma detached_run: "detached a s \<Longrightarrow> arrays (run s rs) a = arrays s a"
proof (induction rs arbitrary: s)
  case Nil
  show ?case by simp
next
  case (Cons r rs)
  from detached_handle [OF Cons.prems, of r] Cons.IH [of "snd (handle r s)"]
  show ?case by simp
qed

lemma delete_item_detaches:
  "heap_ok s \<Longrightarrow> detached (items s) (snd (delete_item s k))
     \<and> arrays (snd (delete_item s k)) (items s) = cur_items s"
  by (simp add: heap_ok_def detached_def delete_item_def cur_items_def Let_def)

lemma item_with_name: "id' it = k \<Longrightarrow> it\<lparr>name := n\<rparr> = \<lparr>id' = k, name = n\<rparr>"
  by (cases it) simp

lemma run_read_only: "\<forall>r\<in>set rs. read_only r \<Longrightarrow> run s rs = s"
proof (induction rs arbitrary: s)
  case Nil
  show ?case by simp
next
  case (Cons r rs)
  then have "read_only r" by simp
  then have "snd (handle r s) = s" by (cases r) simp_all
  with Cons show ?case by simp
qed

lemma store_inv_reachable:
  "int (length (filter is_post rs)) < js_limit \<Longrightarrow> store_inv (run init rs)"
  using store_inv_init js_limit_gt_1 by (intro store_inv_run) (simp_all add: init_def)

section \<open>The properties of the specification\<close>

subsection \<open>Identity: unique ids, a counter above all of them\<close>










subsection \<open>Update and delete\<close>

text \<open>
  C4. When the store holds an item with the given id, \<^verbatim>\<open>PUT /items/:id\<close> changes the name
  of that item and nothing else: the item (the first one with that id, at index \<open>j\<close>)
  keeps its id and its position, every other element of the array is as before, the
  array object and \<open>nextId\<close> are as before, and the updated item is returned.
\<close>

theorem update_replaces_name_in_place:
  assumes "k \<in> id' ` set (cur_items s)"
  shows "\<exists>j<length (cur_items s).
           id' (cur_items s ! j) = k
         \<and> (\<forall>m<j. id' (cur_items s ! m) \<noteq> k)
         \<and> cur_items (snd (put_item s k n)) = (cur_items s)[j := (cur_items s ! j)\<lparr>name := n\<rparr>]
         \<and> fst (put_item s k n) = Item (cur_items (snd (put_item s k n)) ! j)
         \<and> fst (put_item s k n) = Item ((cur_items s ! j)\<lparr>name := n\<rparr>)
         \<and> id' (cur_items (snd (put_item s k n)) ! j) = k
         \<and> items (snd (put_item s k n)) = items s
         \<and> nextId (snd (put_item s k n)) = nextId s
         \<and> serve (PutItem k n) s = (200, BItem \<lparr>id' = k, name = n\<rparr>)"
proof -
  let ?j = "first_at k (cur_items s)"
  have less: "?j < length (cur_items s)" using assms by (rule first_at_less)
  have at: "id' (cur_items s ! ?j) = k" using assms by (rule first_at_id)
  have least: "\<forall>m<?j. id' (cur_items s ! m) \<noteq> k" by (simp add: first_at_least)
  have new: "(cur_items s ! ?j)\<lparr>name := n\<rparr> = \<lparr>id' = k, name = n\<rparr>"
    using at by (rule item_with_name)
  have eq: "put_item s k n =
    (Item \<lparr>id' = k, name = n\<rparr>,
     s\<lparr>arrays := (arrays s)(items s := (cur_items s)[?j := \<lparr>id' = k, name = n\<rparr>])\<rparr>)"
    using assms by (rule put_item_present)
  have upd: "cur_items (snd (put_item s k n)) = (cur_items s)[?j := \<lparr>id' = k, name = n\<rparr>]"
    by (simp add: eq cur_items_def)
  have "id' (cur_items s ! ?j) = k
         \<and> (\<forall>m<?j. id' (cur_items s ! m) \<noteq> k)
         \<and> cur_items (snd (put_item s k n)) = (cur_items s)[?j := (cur_items s ! ?j)\<lparr>name := n\<rparr>]
         \<and> fst (put_item s k n) = Item (cur_items (snd (put_item s k n)) ! ?j)
         \<and> fst (put_item s k n) = Item ((cur_items s ! ?j)\<lparr>name := n\<rparr>)
         \<and> id' (cur_items (snd (put_item s k n)) ! ?j) = k
         \<and> items (snd (put_item s k n)) = items s
         \<and> nextId (snd (put_item s k n)) = nextId s
         \<and> serve (PutItem k n) s = (200, BItem \<lparr>id' = k, name = n\<rparr>)"
    using less at least by (simp add: new upd) (simp add: eq serve_def)
  with less show ?thesis by blast
qed

theorem update_replaces_name_in_place_witness:
  "2 \<in> id' ` set (cur_items (run init [PostItem ''a'', PostItem ''b'', PostItem ''c'']))
   \<and> cur_items (snd (put_item (run init [PostItem ''a'', PostItem ''b'', PostItem ''c'']) 2 ''z''))
       = [\<lparr>id' = 1, name = ''a''\<rparr>, \<lparr>id' = 2, name = ''z''\<rparr>, \<lparr>id' = 3, name = ''c''\<rparr>]
   \<and> fst (put_item (run init [PostItem ''a'', PostItem ''b'', PostItem ''c'']) 2 ''z'')
       = Item \<lparr>id' = 2, name = ''z''\<rparr>"
  using update_replaces_name_in_place
    [of 2 "run init [PostItem ''a'', PostItem ''b'', PostItem ''c'']" "''z''"]
  by (simp add: init_def cur_items_def post_item_def put_item_def findIndex_def js_incr_def
      js_limit_def Let_def)



subsection \<open>Not found\<close>

text \<open>
  C6. \<^verbatim>\<open>GET\<close>, \<^verbatim>\<open>PUT\<close> and \<^verbatim>\<open>DELETE\<close> on \<^verbatim>\<open>/items/:id\<close> answer 404 with the text
  "Item not found" exactly when no item of the store has the id (whatever the history of
  that id); when an item has it they answer 200, with the item, the updated item and
  "Item deleted successfully".
\<close>

theorem not_found_exactly_when_absent:
  "serve (GetItem k) s =
     (if k \<in> id' ` set (cur_items s)
      then (200, BItem (cur_items s ! first_at k (cur_items s)))
      else (404, BText ''Item not found''))
   \<and> serve (PutItem k n) s =
     (if k \<in> id' ` set (cur_items s)
      then (200, BItem \<lparr>id' = k, name = n\<rparr>)
      else (404, BText ''Item not found''))
   \<and> serve (DeleteItem k) s =
     (if k \<in> id' ` set (cur_items s)
      then (200, BText ''Item deleted successfully'')
      else (404, BText ''Item not found''))"
proof (intro conjI)
  show "serve (GetItem k) s =
     (if k \<in> id' ` set (cur_items s)
      then (200, BItem (cur_items s ! first_at k (cur_items s)))
      else (404, BText ''Item not found''))"
    by (simp add: serve_def get_item_reply)
  show "serve (PutItem k n) s =
     (if k \<in> id' ` set (cur_items s)
      then (200, BItem \<lparr>id' = k, name = n\<rparr>)
      else (404, BText ''Item not found''))"
    by (simp add: serve_def put_item_absent put_item_present)
  show "serve (DeleteItem k) s =
     (if k \<in> id' ` set (cur_items s)
      then (200, BText ''Item deleted successfully'')
      else (404, BText ''Item not found''))"
    by (simp add: serve_def delete_item_reply)
qed

theorem not_found_exactly_when_absent_witness:
  "1 \<notin> id' ` set (cur_items (run init [PostItem ''a'', PostItem ''b'', DeleteItem 1]))
   \<and> serve (GetItem 1) (run init [PostItem ''a'', PostItem ''b'', DeleteItem 1])
       = (404, BText ''Item not found'')
   \<and> serve (PutItem 1 ''z'') (run init [PostItem ''a'', PostItem ''b'', DeleteItem 1])
       = (404, BText ''Item not found'')
   \<and> serve (DeleteItem 1) (run init [PostItem ''a'', PostItem ''b'', DeleteItem 1])
       = (404, BText ''Item not found'')
   \<and> 2 \<in> id' ` set (cur_items (run init [PostItem ''a'', PostItem ''b'', DeleteItem 1]))
   \<and> serve (GetItem 2) (run init [PostItem ''a'', PostItem ''b'', DeleteItem 1])
       = (200, BItem \<lparr>id' = 2, name = ''b''\<rparr>)"
  using not_found_exactly_when_absent
    [of 1 "run init [PostItem ''a'', PostItem ''b'', DeleteItem 1]" "''z''"]
    not_found_exactly_when_absent
    [of 2 "run init [PostItem ''a'', PostItem ''b'', DeleteItem 1]" "''z''"]
  by (simp add: init_def cur_items_def first_at_def post_item_def delete_item_def js_incr_def
      js_limit_def Let_def)

text \<open>
  C10. When no item of the store has the id, the three handlers answer "not found" and
  leave the store as it was: \<^verbatim>\<open>GET\<close> and \<^verbatim>\<open>PUT\<close> leave the whole state unchanged, and after
  \<^verbatim>\<open>DELETE\<close> the store holds the same items in the same order and the same \<open>nextId\<close>
  (\<^verbatim>\<open>store.items\<close> then refers to the array \<^verbatim>\<open>filter\<close> built, with the same elements).
\<close>

theorem not_found_leaves_store_unchanged:
  assumes "k \<notin> id' ` set (cur_items s)"
  shows "get_item s k = (Response ''Item not found'' 404, s)
   \<and> put_item s k n = (Response ''Item not found'' 404, s)
   \<and> fst (delete_item s k) = Response ''Item not found'' 404
   \<and> cur_items (snd (delete_item s k)) = cur_items s
   \<and> nextId (snd (delete_item s k)) = nextId s"
proof -
  from assms have "filter (\<lambda>i. id' i \<noteq> k) (cur_items s) = cur_items s"
    by (auto simp: filter_id_conv)
  moreover have "get_item s k = (fst (get_item s k), s)"
    by (metis get_item_state prod.collapse)
  ultimately show ?thesis
    using assms by (simp add: get_item_reply put_item_absent delete_item_reply)
qed

theorem not_found_leaves_store_unchanged_witness:
  "5 \<notin> id' ` set (cur_items (run init [PostItem ''a'', PostItem ''b'']))
   \<and> get_item (run init [PostItem ''a'', PostItem ''b'']) 5
       = (Response ''Item not found'' 404, run init [PostItem ''a'', PostItem ''b''])
   \<and> put_item (run init [PostItem ''a'', PostItem ''b'']) 5 ''z''
       = (Response ''Item not found'' 404, run init [PostItem ''a'', PostItem ''b''])
   \<and> cur_items (snd (delete_item (run init [PostItem ''a'', PostItem ''b'']) 5))
       = [\<lparr>id' = 1, name = ''a''\<rparr>, \<lparr>id' = 2, name = ''b''\<rparr>]
   \<and> nextId (snd (delete_item (run init [PostItem ''a'', PostItem ''b'']) 5)) = 3"
  using not_found_leaves_store_unchanged
    [of 5 "run init [PostItem ''a'', PostItem ''b'']" "''z''"]
  by (simp add: init_def cur_items_def post_item_def js_incr_def js_limit_def Let_def)

subsection \<open>Listing\<close>

text \<open>
  C7. \<^verbatim>\<open>GET /items\<close> leaves the state (the array, its elements and \<open>nextId\<close>) as it was and
  answers with the items of the store in their order; a second \<^verbatim>\<open>GET /items\<close>, right
  after the first or after any requests \<open>rs\<close> that only read, returns the same array and
  the same sequence.
\<close>

theorem list_twice_same_and_no_effect:
  "snd (get_items s) = s
   \<and> fst (get_items (snd (get_items s))) = fst (get_items s)
   \<and> serve GetItems s = (200, BItems (cur_items s))
   \<and> ((\<forall>r\<in>set rs. read_only r) \<longrightarrow>
        run s rs = s
        \<and> serve GetItems (run s (GetItems # rs)) = serve GetItems s
        \<and> fst (get_items (run s (GetItems # rs))) = fst (get_items s))"
proof -
  have "run s (GetItems # rs) = s" if "\<forall>r\<in>set rs. read_only r"
    using that by (simp add: run_read_only)
  then show ?thesis
    by (auto simp: run_read_only serve_def get_items_def cur_items_def)
qed

theorem list_twice_same_and_no_effect_witness:
  "(read_only (GetItem 7) \<and> read_only GetRoot)
   \<and> run (run init [PostItem ''a'', PostItem ''b'']) [GetItem 7, GetRoot]
       = run init [PostItem ''a'', PostItem ''b'']
   \<and> serve GetItems
       (run (run init [PostItem ''a'', PostItem ''b'']) [GetItems, GetItem 7, GetRoot])
       = (200, BItems [\<lparr>id' = 1, name = ''a''\<rparr>, \<lparr>id' = 2, name = ''b''\<rparr>])
   \<and> serve GetItems (run init [PostItem ''a'', PostItem ''b''])
       = (200, BItems [\<lparr>id' = 1, name = ''a''\<rparr>, \<lparr>id' = 2, name = ''b''\<rparr>])"
  using list_twice_same_and_no_effect
    [of "run init [PostItem ''a'', PostItem ''b'']" "[GetItem 7, GetRoot]"]
  by (simp add: init_def serve_def cur_items_def get_items_def post_item_def js_incr_def
      js_limit_def Let_def)

text \<open>
  C8, as the specification states it: the result of \<^verbatim>\<open>GET /items\<close> is a copy that later
  mutations of the store do not alter. The handler returns \<^verbatim>\<open>store.items\<close> itself. On the
  initial store it returns the array at address 0, then empty; after a later
  \<^verbatim>\<open>POST /items\<close> that same array holds the new item.
\<close>

theorem list_result_is_live_counterexample:
  "fst (get_items init) = Items 0
   \<and> items (run init [GetItems, PostItem ''Widget'']) = 0
   \<and> arrays (run init [GetItems]) 0 = []
   \<and> arrays (run init [GetItems, PostItem ''Widget'']) 0 = [\<lparr>id' = 1, name = ''Widget''\<rparr>]
   \<and> arrays (run init [GetItems, PostItem ''Widget'']) 0 \<noteq> arrays (run init [GetItems]) 0"
  by (simp add: init_def get_items_def post_item_def js_incr_def js_limit_def Let_def)

text \<open>
  C8, amended: \<^verbatim>\<open>GET /items\<close> returns the store's own array (no copy is made), and the
  response carries the full ordered sequence the array holds when the handler returns.
  The array that was returned remains the store's array until the next
  \<^verbatim>\<open>DELETE /items/:id\<close>: a \<^verbatim>\<open>POST /items\<close> appends to it, a successful \<^verbatim>\<open>PUT /items/:id\<close>
  overwrites one of its elements, and after any requests \<open>rs\<close> with no DELETE among them it
  holds the items the store then has. Every DELETE, also one that answers "not found",
  makes the store refer to a new array; whatever requests \<open>qs\<close> follow, the array returned
  before the DELETE keeps the elements it had (\<open>heap_ok\<close> holds in every state the program
  reaches: \<open>heap_ok_reachable\<close>).
\<close>

theorem list_returns_the_store_array:
  "get_items s = (Items (items s), s)
   \<and> serve GetItems s = (200, BItems (cur_items s))
   \<and> arrays (snd (post_item s n)) (items s) = cur_items s @ [\<lparr>id' = nextId s, name = n\<rparr>]
   \<and> (k \<in> id' ` set (cur_items s) \<longrightarrow>
        arrays (snd (put_item s k n)) (items s)
          = (cur_items s)[first_at k (cur_items s) := \<lparr>id' = k, name = n\<rparr>])
   \<and> ((\<forall>r\<in>set rs. \<not> is_delete r) \<longrightarrow>
        items (run s rs) = items s
        \<and> arrays (run s rs) (items s) = cur_items (run s rs))
   \<and> (heap_ok s \<longrightarrow>
        items (snd (delete_item s k)) \<noteq> items s
        \<and> arrays (run (snd (delete_item s k)) qs) (items s) = cur_items s)"
proof (intro conjI impI)
  show "get_items s = (Items (items s), s)"
    by (simp add: get_items_def)
  show "serve GetItems s = (200, BItems (cur_items s))"
    by (simp add: serve_def get_items_def cur_items_def)
  show "arrays (snd (post_item s n)) (items s) = cur_items s @ [\<lparr>id' = nextId s, name = n\<rparr>]"
    by (simp add: post_item_def cur_items_def Let_def)
  show "arrays (snd (put_item s k n)) (items s)
          = (cur_items s)[first_at k (cur_items s) := \<lparr>id' = k, name = n\<rparr>]"
    if "k \<in> id' ` set (cur_items s)"
    using that by (simp add: put_item_present)
  show "items (run s rs) = items s" if "\<forall>r\<in>set rs. \<not> is_delete r"
    using that by (rule run_items_no_delete)
  then show "arrays (run s rs) (items s) = cur_items (run s rs)"
    if "\<forall>r\<in>set rs. \<not> is_delete r"
    using that by (simp add: cur_items_def)
  show "items (snd (delete_item s k)) \<noteq> items s" if "heap_ok s"
    using that by (simp add: heap_ok_def delete_item_def Let_def)
  show "arrays (run (snd (delete_item s k)) qs) (items s) = cur_items s" if "heap_ok s"
    using delete_item_detaches [OF that, of k]
    by (simp add: detached_run)
qed

theorem list_returns_the_store_array_witness:
  "heap_ok (run init [PostItem ''a'', PostItem ''b''])
   \<and> 1 \<in> id' ` set (cur_items (run init [PostItem ''a'', PostItem ''b'']))
   \<and> (\<not> is_delete (PostItem ''c'') \<and> \<not> is_delete (PutItem 1 ''z''))
   \<and> fst (get_items (run init [PostItem ''a'', PostItem ''b''])) = Items 0
   \<and> arrays (run init [PostItem ''a'', PostItem ''b'']) 0
       = [\<lparr>id' = 1, name = ''a''\<rparr>, \<lparr>id' = 2, name = ''b''\<rparr>]
   \<and> arrays (run (run init [PostItem ''a'', PostItem ''b'']) [PostItem ''c'', PutItem 1 ''z'']) 0
       = [\<lparr>id' = 1, name = ''z''\<rparr>, \<lparr>id' = 2, name = ''b''\<rparr>, \<lparr>id' = 3, name = ''c''\<rparr>]
   \<and> items (snd (delete_item (run init [PostItem ''a'', PostItem ''b'']) 1)) = 1
   \<and> arrays (run (snd (delete_item (run init [PostItem ''a'', PostItem ''b'']) 1))
               [PostItem ''c'', PutItem 2 ''z'']) 0
       = [\<lparr>id' = 1, name = ''a''\<rparr>, \<lparr>id' = 2, name = ''b''\<rparr>]
   \<and> arrays (run (snd (delete_item (run init [PostItem ''a'', PostItem ''b'']) 7))
               [PostItem ''c'', PutItem 2 ''z'']) 0
       = [\<lparr>id' = 1, name = ''a''\<rparr>, \<lparr>id' = 2, name = ''b''\<rparr>]"
  using list_returns_the_store_array
    [of "run init [PostItem ''a'', PostItem ''b'']" "''z''" 1
        "[PostItem ''c'', PutItem 1 ''z'']" "[PostItem ''c'', PutItem 2 ''z'']"]
    list_returns_the_store_array
    [of "run init [PostItem ''a'', PostItem ''b'']" "''z''" 7
        "[PostItem ''c'', PutItem 1 ''z'']" "[PostItem ''c'', PutItem 2 ''z'']"]
  by (simp add: init_def heap_ok_def cur_items_def first_at_def get_items_def post_item_def
      put_item_def delete_item_def findIndex_def js_incr_def js_limit_def Let_def)

subsection \<open>The root route\<close>

text \<open>
  C9, as the specification states it: the body of the answer to \<^verbatim>\<open>GET /\<close> is a "running"
  banner. The body is the text "ElysiaJS CRUD In-Memory Example", in which the word
  "running" does not occur.
\<close>

theorem root_banner_counterexample:
  "serve GetRoot init = (200, BText ''ElysiaJS CRUD In-Memory Example'')
   \<and> \<not> sublist ''running'' ''ElysiaJS CRUD In-Memory Example''
   \<and> \<not> sublist ''Running'' ''ElysiaJS CRUD In-Memory Example''"
  by (simp add: serve_def get_root_def) code_simp

text \<open>
  C9, amended: in every state \<^verbatim>\<open>GET /\<close> answers with status 200 and the fixed text
  "ElysiaJS CRUD In-Memory Example"; it leaves the state as it was, and its reply is the
  same in any two states.
\<close>

theorem root_replies_fixed_banner:
  "serve GetRoot s = (200, BText ''ElysiaJS CRUD In-Memory Example'')
   \<and> snd (handle GetRoot s) = s
   \<and> fst (handle GetRoot s) = fst (handle GetRoot s')"
  by (simp add: serve_def get_root_def)

end
